theory Spec2Isabelle
  imports Main
begin

section \<open>Strings\<close>

text \<open>
  A Python \<open>str\<close> is modelled as a \<open>string\<close>; each \<open>char\<close> stands for one code point
  below 256. \<open>isspace\<close> is \<open>str.isspace\<close> on that range, which is also the class \<open>\s\<close> of
  \<open>re\<close> for a \<open>str\<close> pattern: TAB, LF, VT, FF, CR, the separators 0x1C..0x1F, SPACE, NEL
  (0x85) and NBSP (0xA0).
\<close>

definition isspace :: "char \<Rightarrow> bool" where
  "isspace c = (let n = (of_char c :: nat) in
     (9 \<le> n \<and> n \<le> 13) \<or> (28 \<le> n \<and> n \<le> 32) \<or> n = 133 \<or> n = 160)"

text \<open>\<open>str.strip()\<close> without argument.\<close>

definition strip :: "string \<Rightarrow> string" where
  "strip s = rev (dropWhile isspace (rev (dropWhile isspace s)))"

text \<open>\<open>sep.join(xs)\<close>.\<close>

fun join :: "string \<Rightarrow> string list \<Rightarrow> string" where
  "join sep [] = []"
| "join sep [x] = x"
| "join sep (x # y # ys) = x @ sep @ join sep (y # ys)"

text \<open>\<open>s.split('\n')\<close>: the pieces between the newlines, always at least one piece.\<close>

fun split_acc :: "string \<Rightarrow> string \<Rightarrow> string list" where
  "split_acc acc [] = [rev acc]"
| "split_acc acc (c # cs) =
     (if c = CHR 0x0A then rev acc # split_acc [] cs else split_acc (c # acc) cs)"

definition split_nl :: "string \<Rightarrow> string list" where
  "split_nl s = split_acc [] s"

text \<open>\<open>s.split('\n\n')\<close>: left to right, occurrences of the separator do not overlap.\<close>

fun split2_acc :: "string \<Rightarrow> string \<Rightarrow> string list" where
  "split2_acc acc [] = [rev acc]"
| "split2_acc acc [c] = [rev (c # acc)]"
| "split2_acc acc (c # d # cs) =
     (if c = CHR 0x0A \<and> d = CHR 0x0A then rev acc # split2_acc [] cs
      else split2_acc (c # acc) (d # cs))"

definition split_nlnl :: "string \<Rightarrow> string list" where
  "split_nlnl s = split2_acc [] s"

text \<open>\<open>str(n)\<close> for an \<open>int\<close> that is never negative here (the counter of the renumbering).\<close>

definition digit_char :: "nat \<Rightarrow> char" where
  "digit_char n = ''0123456789'' ! (n mod 10)"

function str_int :: "nat \<Rightarrow> string" where
  "str_int n = (if n < 10 then [digit_char n] else str_int (n div 10) @ [digit_char n])"
  by pat_completeness auto
termination
  by (relation "measure id") auto

declare str_int.simps [simp del]

section \<open>The tokenizer: \<open>line_regex\<close>\<close>

text \<open>
  \<^verbatim>\<open>(<\s*font[^>]*>)(?:<\s*[^/f][^>]*>)?(.*?)(?:<\s*/[^f][^>]*>)?((?(1)<\s*/font\s*)+>)|(?:^|(?<=>))([^<>]+)\<close>

  \<open>re\<close> is a backtracking matcher. Each piece of the pattern is a function from the rest
  of the input to the list of the rests it can leave behind, in the order in which the
  matcher tries them: a greedy repeat leaves the shortest rest first, a lazy one the longest.
  A sequence of pieces tries every rest of the first piece, in order, with the second piece;
  the head of the final list is the match \<open>re\<close> returns.
\<close>

type_synonym piece = "string \<Rightarrow> string list"

text \<open>A literal string.\<close>

definition lit :: "string \<Rightarrow> piece" where
  "lit p s = (if take (length p) s = p then [drop (length p) s] else [])"

text \<open>One character of a class.\<close>

fun one_of :: "(char \<Rightarrow> bool) \<Rightarrow> piece" where
  "one_of P [] = []"
| "one_of P (c # cs) = (if P c then [cs] else [])"

text \<open>\<open>X*\<close> for a class \<open>X\<close>, greedy: the longest run first, then one character less, ...\<close>

fun star :: "(char \<Rightarrow> bool) \<Rightarrow> piece" where
  "star P [] = [[]]"
| "star P (c # cs) = (if P c then star P cs @ [c # cs] else [c # cs])"

text \<open>\<open>X*?\<close> for a class \<open>X\<close>, lazy: the empty run first, then one character more, ...\<close>

fun star_lazy :: "(char \<Rightarrow> bool) \<Rightarrow> piece" where
  "star_lazy P [] = [[]]"
| "star_lazy P (c # cs) = (c # cs) # (if P c then star_lazy P cs else [])"

text \<open>One piece after the other.\<close>

definition seq :: "piece \<Rightarrow> piece \<Rightarrow> piece" where
  "seq p q s = concat (map q (p s))"

text \<open>\<open>(?:X)?\<close>, greedy: with \<open>X\<close> first, then without.\<close>

definition opt :: "piece \<Rightarrow> piece" where
  "opt p s = p s @ [s]"

text \<open>The text a piece consumed, from the input before it and the rest after it.\<close>

definition consumed :: "string \<Rightarrow> string \<Rightarrow> string" where
  "consumed s r = take (length s - length r) s"

text \<open>\<^verbatim>\<open><\s*font[^>]*>\<close>, the body of group 1.\<close>

definition open_font :: piece where
  "open_font = seq (lit ''<'') (seq (star isspace) (seq (lit ''font'')
     (seq (star (\<lambda>c. c \<noteq> CHR ''>'')) (lit ''>''))))"

text \<open>\<^verbatim>\<open>(?:<\s*[^/f][^>]*>)?\<close>\<close>

definition other_open :: piece where
  "other_open = opt (seq (lit ''<'') (seq (star isspace)
     (seq (one_of (\<lambda>c. c \<noteq> CHR ''/'' \<and> c \<noteq> CHR ''f''))
     (seq (star (\<lambda>c. c \<noteq> CHR ''>'')) (lit ''>'')))))"

text \<open>\<^verbatim>\<open>.*?\<close>, the body of group 2; without DOTALL the dot matches all but a newline.\<close>

definition inner_text :: piece where
  "inner_text = star_lazy (\<lambda>c. c \<noteq> CHR 0x0A)"

text \<open>\<^verbatim>\<open>(?:<\s*/[^f][^>]*>)?\<close>\<close>

definition other_close :: piece where
  "other_close = opt (seq (lit ''<'') (seq (star isspace) (seq (lit ''/'')
     (seq (one_of (\<lambda>c. c \<noteq> CHR ''f''))
     (seq (star (\<lambda>c. c \<noteq> CHR ''>'')) (lit ''>''))))))"

text \<open>
  \<^verbatim>\<open><\s*/font\s*\<close>, the yes-branch of the conditional \<^verbatim>\<open>(?(1)...)\<close>. The conditional
  has no no-branch, and it stands behind group 1 in the same alternative, where group 1 has
  always taken part: the conditional is its yes-branch.
\<close>

definition close_token :: piece where
  "close_token = seq (lit ''<'') (seq (star isspace) (seq (lit ''/font'') (star isspace)))"

subsection \<open>What a piece leaves behind\<close>

lemma lit_D: "r \<in> set (lit p s) \<Longrightarrow> s = p @ r"
  by (auto simp: lit_def split: if_splits) (metis append_take_drop_id)

lemma one_of_D: "r \<in> set (one_of P s) \<Longrightarrow> \<exists>c. P c \<and> s = c # r"
  by (cases s) (auto split: if_splits)

lemma star_D: "r \<in> set (star P s) \<Longrightarrow> \<exists>u. s = u @ r \<and> list_all P u"
proof (induction s)
  case Nil
  then show ?case by simp
next
  case (Cons c cs)
  show ?case
  proof (cases "r = c # cs")
    case True
    then show ?thesis by simp
  next
    case False
    with Cons.prems have pc: "P c" and "r \<in> set (star P cs)"
      by (auto split: if_splits)
    then obtain u where "cs = u @ r" "list_all P u"
      using Cons.IH by blast
    with pc have "c # cs = (c # u) @ r \<and> list_all P (c # u)" by simp
    then show ?thesis by blast
  qed
qed

lemma star_lazy_D: "r \<in> set (star_lazy P s) \<Longrightarrow> \<exists>u. s = u @ r \<and> list_all P u"
proof (induction s)
  case Nil
  then show ?case by simp
next
  case (Cons c cs)
  show ?case
  proof (cases "r = c # cs")
    case True
    then show ?thesis by simp
  next
    case False
    with Cons.prems have pc: "P c" and "r \<in> set (star_lazy P cs)"
      by (auto split: if_splits)
    then obtain u where "cs = u @ r" "list_all P u"
      using Cons.IH by blast
    with pc have "c # cs = (c # u) @ r \<and> list_all P (c # u)" by simp
    then show ?thesis by blast
  qed
qed

lemma seq_iff: "r \<in> set (seq p q s) \<longleftrightarrow> (\<exists>m \<in> set (p s). r \<in> set (q m))"
  by (auto simp: seq_def)

lemma opt_iff: "r \<in> set (opt p s) \<longleftrightarrow> r \<in> set (p s) \<or> r = s"
  by (auto simp: opt_def)

lemma open_font_D:
  assumes "r \<in> set (open_font s)"
  shows "\<exists>w a. s = ''<'' @ w @ ''font'' @ a @ ''>'' @ r \<and> list_all isspace w
           \<and> list_all (\<lambda>c. c \<noteq> CHR ''>'') a"
proof -
  from assms obtain r1 r2 r3 r4 where
    "r1 \<in> set (lit ''<'' s)" "r2 \<in> set (star isspace r1)" "r3 \<in> set (lit ''font'' r2)"
    "r4 \<in> set (star (\<lambda>c. c \<noteq> CHR ''>'') r3)" "r \<in> set (lit ''>'' r4)"
    unfolding open_font_def seq_iff by blast
  then show ?thesis
    by (fastforce dest!: lit_D star_D)
qed

lemma close_token_D:
  assumes "r \<in> set (close_token s)"
  shows "\<exists>w v. s = ''<'' @ w @ ''/font'' @ v @ r \<and> list_all isspace w \<and> list_all isspace v"
proof -
  from assms obtain r1 r2 r3 where
    "r1 \<in> set (lit ''<'' s)" "r2 \<in> set (star isspace r1)" "r3 \<in> set (lit ''/font'' r2)"
    "r \<in> set (star isspace r3)"
    unfolding close_token_def seq_iff by blast
  then show ?thesis
    by (fastforce dest!: lit_D star_D)
qed

lemma close_token_shorter: "r \<in> set (close_token s) \<Longrightarrow> length r < length s"
  by (auto dest!: close_token_D)


text \<open>
  \<^verbatim>\<open>(?(1)<\s*/font\s*)+\<close>, greedy: after each token, first one more round, then stop.
  \<open>close_tokens_from rs\<close> continues from each of the rests \<open>rs\<close> that one token has left, in
  their order. A token is not empty, so the repetition ends.
\<close>

definition longest :: "string list \<Rightarrow> nat" where
  "longest rs = (if rs = [] then 0 else Suc (Max (length ` set rs)))"

lemma longest_close_token: "longest (close_token r) < longest (r # rs)"
proof (cases "close_token r = []")
  case True
  then show ?thesis by (simp add: longest_def)
next
  case False
  have "Max (length ` set (close_token r)) < length r"
    using False by (simp add: close_token_shorter)
  also have "length r \<le> Max (length ` set (r # rs))"
    by simp
  finally show ?thesis using False by (simp add: longest_def)
qed

lemma longest_tl: "longest rs \<le> longest (r # rs)"
  by (simp add: longest_def)

function close_tokens_from :: "string list \<Rightarrow> string list" where
  "close_tokens_from [] = []"
| "close_tokens_from (r # rs) = close_tokens_from (close_token r) @ [r] @ close_tokens_from rs"
  by pat_completeness auto
termination
proof (relation "measures [longest, length]")
  show "wf (measures [longest, length])" by simp
next
  fix r rs
  show "(close_token r, r # rs) \<in> measures [longest, length]"
    using longest_close_token[of r rs] by simp
next
  fix r rs
  show "(rs, r # rs) \<in> measures [longest, length]"
    using longest_tl[of rs r] by auto
qed

definition close_tokens :: piece where
  "close_tokens s = close_tokens_from (close_token s)"

text \<open>\<^verbatim>\<open>(?(1)<\s*/font\s*)+>\<close>, the body of group 3.\<close>

definition close_font :: piece where
  "close_font = seq close_tokens (lit ''>'')"

text \<open>The match object: \<open>match.group(1)\<close> to \<open>match.group(4)\<close>, \<open>None\<close> for a group that
  took no part.\<close>

record re_match =
  group1 :: "string option"
  group2 :: "string option"
  group3 :: "string option"
  group4 :: "string option"

text \<open>The first alternative at the start of \<open>s\<close>: every way to match it, in the order of the
  matcher, each with the rest of the input behind the match.\<close>

definition tagged_run :: "string \<Rightarrow> (re_match \<times> string) list" where
  "tagged_run s =
     concat (map (\<lambda>r1.
       concat (map (\<lambda>r2.
         concat (map (\<lambda>r3.
           concat (map (\<lambda>r4.
             map (\<lambda>r5.
               (\<lparr>group1 = Some (consumed s r1), group2 = Some (consumed r2 r3),
                 group3 = Some (consumed r4 r5), group4 = None\<rparr>, r5))
               (close_font r4))
             (other_close r3)))
           (inner_text r2)))
         (other_open r1)))
       (open_font s))"

text \<open>
  The second alternative, \<^verbatim>\<open>(?:^|(?<=>))([^<>]+)\<close>, at the start of \<open>s\<close>, where \<open>prev\<close> is the
  character before \<open>s\<close> in the line (\<open>None\<close> at the start of the line). It ends the
  pattern, so the greedy run is never shortened.
\<close>

definition plain_run :: "char option \<Rightarrow> string \<Rightarrow> (re_match \<times> string) option" where
  "plain_run prev s =
     (if prev = None \<or> prev = Some CHR ''>'' then
        (let run = takeWhile (\<lambda>c. c \<noteq> CHR ''<'' \<and> c \<noteq> CHR ''>'') s in
         if run = [] then None
         else Some (\<lparr>group1 = None, group2 = None, group3 = None, group4 = Some run\<rparr>,
                    dropWhile (\<lambda>c. c \<noteq> CHR ''<'' \<and> c \<noteq> CHR ''>'') s))
      else None)"

text \<open>The whole pattern at one position: the first alternative before the second.\<close>

definition match_at :: "char option \<Rightarrow> string \<Rightarrow> (re_match \<times> string) option" where
  "match_at prev s = (case tagged_run s of x # _ \<Rightarrow> Some x | [] \<Rightarrow> plain_run prev s)"

subsection \<open>A match is not empty\<close>

lemma lit_le: "r \<in> set (lit p s) \<Longrightarrow> length r \<le> length s"
  by (auto dest!: lit_D)

lemma star_le: "r \<in> set (star P s) \<Longrightarrow> length r \<le> length s"
  by (auto dest!: star_D)

lemma one_of_le: "r \<in> set (one_of P s) \<Longrightarrow> length r \<le> length s"
  by (auto dest!: one_of_D)

lemma seq_le:
  assumes p: "\<And>s r. r \<in> set (p s) \<Longrightarrow> length r \<le> length s"
    and q: "\<And>s r. r \<in> set (q s) \<Longrightarrow> length r \<le> length s"
    and r: "r \<in> set (seq p q s)"
  shows "length r \<le> length s"
proof -
  from r obtain m where "m \<in> set (p s)" "r \<in> set (q m)"
    unfolding seq_iff by blast
  then have "length m \<le> length s" "length r \<le> length m"
    using p q by blast+
  then show ?thesis by simp
qed

lemma opt_le:
  assumes p: "\<And>s r. r \<in> set (p s) \<Longrightarrow> length r \<le> length s"
    and r: "r \<in> set (opt p s)"
  shows "length r \<le> length s"
  using r p unfolding opt_iff by auto

lemma other_open_le: "r \<in> set (other_open s) \<Longrightarrow> length r \<le> length s"
  unfolding other_open_def
  by (erule opt_le[rotated]) (erule seq_le[rotated 2] lit_le star_le one_of_le)+

lemma other_close_le: "r \<in> set (other_close s) \<Longrightarrow> length r \<le> length s"
  unfolding other_close_def
  by (erule opt_le[rotated]) (erule seq_le[rotated 2] lit_le star_le one_of_le)+

lemma inner_text_le: "r \<in> set (inner_text s) \<Longrightarrow> length r \<le> length s"
  unfolding inner_text_def by (auto dest!: star_lazy_D)

lemma close_tokens_from_le:
  "r \<in> set (close_tokens_from rs) \<Longrightarrow> \<exists>m \<in> set rs. length r \<le> length m"
proof (induction rs arbitrary: r rule: close_tokens_from.induct)
  case 1
  then show ?case by simp
next
  case (2 x xs)
  from "2.prems" consider "r \<in> set (close_tokens_from (close_token x))" | "r = x"
    | "r \<in> set (close_tokens_from xs)"
    by auto
  then show ?case
  proof cases
    case 1
    then obtain m where "m \<in> set (close_token x)" "length r \<le> length m"
      using "2.IH"(1) by blast
    moreover from this have "length m < length x" by (simp add: close_token_shorter)
    ultimately have "length r \<le> length x" by simp
    then show ?thesis by auto
  next
    case 2
    then show ?thesis by simp
  next
    case 3
    then show ?thesis using "2.IH"(2) by auto
  qed
qed

lemma close_tokens_le: "r \<in> set (close_tokens s) \<Longrightarrow> length r < length s"
  unfolding close_tokens_def
  by (fastforce dest: close_tokens_from_le close_token_shorter)

lemma close_font_le:
  assumes "r \<in> set (close_font s)"
  shows "length r < length s"
proof -
  from assms obtain m where "m \<in> set (close_tokens s)" "r \<in> set (lit ''>'' m)"
    unfolding close_font_def seq_iff by blast
  then have "length m < length s" "length r \<le> length m"
    by (auto dest: close_tokens_le lit_le)
  then show ?thesis by simp
qed

lemma open_font_le: "r \<in> set (open_font s) \<Longrightarrow> length r < length s"
  by (auto dest!: open_font_D)

lemma tagged_run_D:
  assumes "(m, r) \<in> set (tagged_run s)"
  shows "\<exists>r1 r2 r3 r4. r1 \<in> set (open_font s) \<and> r2 \<in> set (other_open r1)
           \<and> r3 \<in> set (inner_text r2) \<and> r4 \<in> set (other_close r3) \<and> r \<in> set (close_font r4)
           \<and> m = \<lparr>group1 = Some (consumed s r1), group2 = Some (consumed r2 r3),
                   group3 = Some (consumed r4 r), group4 = None\<rparr>"
  using assms unfolding tagged_run_def by auto

lemma tagged_run_shorter:
  assumes "(m, r) \<in> set (tagged_run s)"
  shows "length r < length s"
proof -
  from tagged_run_D[OF assms] obtain r1 r2 r3 r4 where
    "r1 \<in> set (open_font s)" "r2 \<in> set (other_open r1)" "r3 \<in> set (inner_text r2)"
    "r4 \<in> set (other_close r3)" "r \<in> set (close_font r4)"
    by blast
  then have "length r1 < length s" "length r2 \<le> length r1" "length r3 \<le> length r2"
    "length r4 \<le> length r3" "length r < length r4"
    by (auto dest: open_font_le other_open_le inner_text_le other_close_le close_font_le)
  then show ?thesis by linarith
qed

lemma plain_run_shorter:
  assumes "plain_run prev s = Some (m, r)"
  shows "length r < length s"
proof -
  let ?P = "\<lambda>c. c \<noteq> CHR ''<'' \<and> c \<noteq> CHR ''>''"
  from assms have "takeWhile ?P s \<noteq> []" and "r = dropWhile ?P s"
    by (auto simp: plain_run_def Let_def split: if_splits)
  moreover have "length (takeWhile ?P s) + length (dropWhile ?P s) = length s"
    by (metis length_append takeWhile_dropWhile_id)
  ultimately show ?thesis
    by (cases "takeWhile ?P s") auto
qed

lemma match_at_shorter:
  assumes "match_at prev s = Some (m, r)"
  shows "length r < length s"
proof (cases "tagged_run s")
  case Nil
  with assms have "plain_run prev s = Some (m, r)" by (simp add: match_at_def)
  then show ?thesis by (rule plain_run_shorter)
next
  case (Cons x xs)
  with assms have "(m, r) \<in> set (tagged_run s)" by (simp add: match_at_def)
  then show ?thesis by (rule tagged_run_shorter)
qed

subsection \<open>\<open>line_regex.finditer\<close>\<close>

text \<open>The character before the rest \<open>r\<close>, when the match started at \<open>s\<close> behind \<open>prev\<close>.\<close>

definition prev_char :: "char option \<Rightarrow> string \<Rightarrow> string \<Rightarrow> char option" where
  "prev_char prev s r = (if consumed s r = [] then prev else Some (last (consumed s r)))"

text \<open>
  \<open>finditer\<close> looks for the leftmost match from the current position: the whole pattern is
  tried at the position, and only when it fails there the search moves on by one character.
  The next search starts where the match ended.
\<close>

function scan :: "char option \<Rightarrow> string \<Rightarrow> re_match list" where
  "scan prev s =
     (case match_at prev s of
        Some (m, r) \<Rightarrow> m # scan (prev_char prev s r) r
      | None \<Rightarrow> (case s of [] \<Rightarrow> [] | c # cs \<Rightarrow> scan (Some c) cs))"
  by pat_completeness auto
termination
  by (relation "measure (\<lambda>(prev, s). length s)") (auto dest: match_at_shorter)

declare scan.simps [simp del]

definition finditer :: "string \<Rightarrow> re_match list" where
  "finditer text = scan None text"

section \<open>The classes of \<open>subtitle.py\<close>\<close>

text \<open>The exceptions the module can meet.\<close>

datatype error = IndexError | AttributeError | TypeError

text \<open>\<open>a or b\<close> on two values that are \<open>None\<close> or a \<open>str\<close>: \<open>a\<close> when it is a string that is
  not empty, else \<open>b\<close>.\<close>

definition py_or :: "string option \<Rightarrow> string option \<Rightarrow> string option" where
  "py_or a b = (case a of None \<Rightarrow> b | Some x \<Rightarrow> if x \<noteq> [] then Some x else b)"

text \<open>\<open>a or ''\<close>.\<close>

definition or_empty :: "string option \<Rightarrow> string" where
  "or_empty a = (case a of None \<Rightarrow> [] | Some x \<Rightarrow> x)"

subsection \<open>\<open>SrtFrase\<close>\<close>

record SrtFrase =
  f_ignore_col :: bool
  open_tags :: string
  f_text :: string
  closing_tags :: string

definition SrtFrase_init :: "string \<Rightarrow> string option \<Rightarrow> string option \<Rightarrow> bool \<Rightarrow> SrtFrase" where
  "SrtFrase_init t opening closing ignore_colours =
     \<lparr>f_ignore_col = ignore_colours, open_tags = or_empty opening, f_text = strip t,
      closing_tags = or_empty closing\<rparr>"

text \<open>The property \<open>text\<close> and its setter.\<close>

definition SrtFrase_text :: "SrtFrase \<Rightarrow> string" where
  "SrtFrase_text f = f_text f"

definition SrtFrase_set_text :: "SrtFrase \<Rightarrow> string \<Rightarrow> SrtFrase" where
  "SrtFrase_set_text f v = f\<lparr>f_text := v\<rparr>"

definition SrtFrase_str :: "SrtFrase \<Rightarrow> string" where
  "SrtFrase_str f =
     (if f_text f \<noteq> [] then
        (if f_ignore_col f then f_text f
         else concat [open_tags f, f_text f, closing_tags f])
      else [])"

definition SrtFrase_bool :: "SrtFrase \<Rightarrow> bool" where
  "SrtFrase_bool f = (f_text f \<noteq> [])"

subsection \<open>\<open>SrtLine\<close>\<close>

record SrtLine =
  l_ignore_col :: bool
  frases :: "SrtFrase list"

text \<open>
  The loop of \<open>_parse_text\<close> over the matches, with the list \<open>self._frases\<close> built so far.
  \<open>text.strip()\<close> on \<open>None\<close> raises \<open>AttributeError\<close>.
\<close>

fun parse_text :: "re_match list \<Rightarrow> bool \<Rightarrow> SrtFrase list \<Rightarrow> error + SrtFrase list" where
  "parse_text [] ignor_col fs = Inr fs"
| "parse_text (m # ms) ignor_col fs =
     (case py_or (group4 m) (group2 m) of
        None \<Rightarrow> Inl AttributeError
      | Some t \<Rightarrow>
          (if strip t \<noteq> []
           then parse_text ms ignor_col
                  (fs @ [SrtFrase_init (strip t) (group1 m) (group3 m) ignor_col])
           else parse_text ms ignor_col fs))"

definition SrtLine_init :: "string \<Rightarrow> bool \<Rightarrow> error + SrtLine" where
  "SrtLine_init t ignore_colours =
     (case parse_text (finditer t) ignore_colours [] of
        Inl e \<Rightarrow> Inl e
      | Inr fs \<Rightarrow> Inr \<lparr>l_ignore_col = ignore_colours, frases = fs\<rparr>)"

definition SrtLine_str :: "SrtLine \<Rightarrow> string" where
  "SrtLine_str l = (if frases l \<noteq> [] then join '' '' (map SrtFrase_str (frases l)) else [])"

definition SrtLine_bool :: "SrtLine \<Rightarrow> bool" where
  "SrtLine_bool l = (frases l \<noteq> [])"

definition SrtLine_iter :: "SrtLine \<Rightarrow> SrtFrase list" where
  "SrtLine_iter l = frases l"

text \<open>
  The line after \<open>list(line)[n].text = v\<close>. Iterating a line yields the span objects that
  the line holds, so the setter of \<open>SrtFrase.text\<close> writes into the line's own span; the
  index raises \<open>IndexError\<close> out of range.
\<close>

definition SrtLine_set_text_at :: "SrtLine \<Rightarrow> nat \<Rightarrow> string \<Rightarrow> error + SrtLine" where
  "SrtLine_set_text_at l n v =
     (if n < length (frases l)
      then Inr (l\<lparr>frases := (frases l)[n := SrtFrase_set_text (frases l ! n) v]\<rparr>)
      else Inl IndexError)"

subsection \<open>\<open>SrtBlock\<close>\<close>

text \<open>
  \<open>text_attr\<close> is the attribute \<open>text\<close> that only the setter of \<open>SrtDoc.text\<close> creates, on
  a block, with a block of the other document as its value; \<open>None\<close> while the block has no
  such attribute.
\<close>

datatype SrtBlock =
  SrtBlock (idx: string) (b_time: string) (lines: "SrtLine list") (text_attr: "SrtBlock option")

definition set_idx :: "string \<Rightarrow> SrtBlock \<Rightarrow> SrtBlock" where
  "set_idx v b = SrtBlock v (b_time b) (lines b) (text_attr b)"

definition set_time :: "string \<Rightarrow> SrtBlock \<Rightarrow> SrtBlock" where
  "set_time v b = SrtBlock (idx b) v (lines b) (text_attr b)"

definition set_lines :: "SrtLine list \<Rightarrow> SrtBlock \<Rightarrow> SrtBlock" where
  "set_lines v b = SrtBlock (idx b) (b_time b) v (text_attr b)"

definition set_text_attr :: "SrtBlock \<Rightarrow> SrtBlock \<Rightarrow> SrtBlock" where
  "set_text_attr v b = SrtBlock (idx b) (b_time b) (lines b) (Some v)"

text \<open>
  The \<open>for\<close> loop of \<open>_parse\<close> over \<open>lines[2:]\<close>: the list \<open>self.lines\<close> as it stands when the
  loop ends or raises, and the exception if there is one.
\<close>

fun parse_lines :: "string list \<Rightarrow> bool \<Rightarrow> SrtLine list \<Rightarrow> SrtLine list \<times> error option" where
  "parse_lines [] no_col ls = (ls, None)"
| "parse_lines (x # xs) no_col ls =
     (case SrtLine_init (strip x) no_col of
        Inl e \<Rightarrow> (ls, Some e)
      | Inr line_obj \<Rightarrow>
          (if SrtLine_bool line_obj then parse_lines xs no_col (ls @ [line_obj])
           else parse_lines xs no_col ls))"

text \<open>The body of the \<open>try\<close>: the block as the body leaves it, and the exception if it
  raised. \<open>lines[0]\<close> and \<open>lines[1]\<close> raise \<open>IndexError\<close> out of range.\<close>

definition try_body :: "SrtBlock \<Rightarrow> string list \<Rightarrow> bool \<Rightarrow> SrtBlock \<times> error option" where
  "try_body self ls no_col =
     (case ls of
        [] \<Rightarrow> (self, Some IndexError)
      | l0 # rest \<Rightarrow>
          (let self1 = set_idx l0 self in
           case rest of
             [] \<Rightarrow> (self1, Some IndexError)
           | l1 # body \<Rightarrow>
               (let self2 = set_time l1 self1 in
                case parse_lines body no_col (lines self2) of
                  (lns, e) \<Rightarrow> (set_lines lns self2, e))))"

text \<open>\<open>_parse\<close>: \<open>except IndexError: pass\<close> swallows that exception and no other.\<close>

definition SrtBlock_parse :: "SrtBlock \<Rightarrow> string \<Rightarrow> bool \<Rightarrow> error + SrtBlock" where
  "SrtBlock_parse self block_str no_col =
     (case try_body self (split_nl (strip block_str)) no_col of
        (self', None) \<Rightarrow> Inr self'
      | (self', Some IndexError) \<Rightarrow> Inr self'
      | (self', Some e) \<Rightarrow> Inl e)"

definition SrtBlock_init :: "string \<Rightarrow> bool \<Rightarrow> error + SrtBlock" where
  "SrtBlock_init block_str ignore_colours =
     SrtBlock_parse (SrtBlock [] [] [] None) block_str ignore_colours"

definition SrtBlock_bool :: "SrtBlock \<Rightarrow> bool" where
  "SrtBlock_bool b = (lines b \<noteq> [])"

definition SrtBlock_str :: "SrtBlock \<Rightarrow> string" where
  "SrtBlock_str b =
     (if SrtBlock_bool b
      then join [CHR 0x0A]
             ([idx b, b_time b] @ map SrtLine_str (filter SrtLine_bool (lines b)) @ [[CHR 0x0A]])
      else [])"

fun SrtBlock_iter :: "SrtLine list \<Rightarrow> SrtFrase list" where
  "SrtBlock_iter [] = []"
| "SrtBlock_iter (l # ls) = SrtLine_iter l @ SrtBlock_iter ls"

subsection \<open>\<open>SrtDoc\<close>\<close>

record SrtDoc =
  blocks :: "SrtBlock list"

text \<open>The list comprehension of \<open>__init__\<close>: a block for every chunk that is not empty.\<close>

fun init_blocks :: "string list \<Rightarrow> bool \<Rightarrow> error + SrtBlock list" where
  "init_blocks [] ignore_colours = Inr []"
| "init_blocks (c # cs) ignore_colours =
     (if c \<noteq> [] then
        (case SrtBlock_init c ignore_colours of
           Inl e \<Rightarrow> Inl e
         | Inr b \<Rightarrow>
             (case init_blocks cs ignore_colours of
                Inl e \<Rightarrow> Inl e
              | Inr bs \<Rightarrow> Inr (b # bs)))
      else init_blocks cs ignore_colours)"

definition SrtDoc_init :: "string \<Rightarrow> bool \<Rightarrow> error + SrtDoc" where
  "SrtDoc_init srt_doc ignore_colours =
     (case init_blocks (split_nlnl srt_doc) ignore_colours of
        Inl e \<Rightarrow> Inl e
      | Inr bs \<Rightarrow> Inr \<lparr>blocks = bs\<rparr>)"

text \<open>
  The getter of \<open>text\<close>: \<open>''.join(block.text for block in self.blocks)\<close>. \<open>join\<close> first
  draws every item, and \<open>block.text\<close> raises \<open>AttributeError\<close> on a block without the
  attribute; the items it then has are blocks, not strings, and \<open>join\<close> raises \<open>TypeError\<close>
  on the first of them.
\<close>

fun block_texts :: "SrtBlock list \<Rightarrow> error + SrtBlock list" where
  "block_texts [] = Inr []"
| "block_texts (b # bs) =
     (case text_attr b of
        None \<Rightarrow> Inl AttributeError
      | Some v \<Rightarrow> (case block_texts bs of Inl e \<Rightarrow> Inl e | Inr vs \<Rightarrow> Inr (v # vs)))"

definition SrtDoc_text :: "SrtDoc \<Rightarrow> error + string" where
  "SrtDoc_text d =
     (case block_texts (blocks d) of
        Inl e \<Rightarrow> Inl e
      | Inr vs \<Rightarrow> (if vs = [] then Inr [] else Inl TypeError))"

text \<open>The setter of \<open>text\<close>: \<open>for orig, trans in zip(self.blocks, value.blocks): orig.text = trans\<close>.\<close>

fun zip_assign :: "SrtBlock list \<Rightarrow> SrtBlock list \<Rightarrow> SrtBlock list" where
  "zip_assign [] ts = []"
| "zip_assign (orig # os) [] = orig # os"
| "zip_assign (orig # os) (tr # ts) = set_text_attr tr orig # zip_assign os ts"

definition SrtDoc_set_text :: "SrtDoc \<Rightarrow> SrtDoc \<Rightarrow> SrtDoc" where
  "SrtDoc_set_text d v = d\<lparr>blocks := zip_assign (blocks d) (blocks v)\<rparr>"

text \<open>
  \<open>__str__\<close>. The generator \<open>block_iter\<close> writes the new index into each block that is not
  empty before it yields the block's string: it returns the blocks as it leaves them and
  the strings it yields, from the counter \<open>i\<close> on.
\<close>

fun block_iter :: "nat \<Rightarrow> SrtBlock list \<Rightarrow> SrtBlock list \<times> string list" where
  "block_iter i [] = ([], [])"
| "block_iter i (b # bs) =
     (if SrtBlock_bool b then
        (let b' = set_idx (str_int i) b;
             (bs', ys) = block_iter (i + 1) bs
         in (b' # bs', SrtBlock_str b' # ys))
      else
        (let (bs', ys) = block_iter i bs in (b # bs', ys)))"

definition SrtDoc_str :: "SrtDoc \<Rightarrow> SrtDoc \<times> string" where
  "SrtDoc_str d = (let (bs, ys) = block_iter 1 (blocks d) in (d\<lparr>blocks := bs\<rparr>, concat ys))"

text \<open>\<open>frases\<close>: \<open>for block in self.blocks: for line in block.lines: yield from line\<close>.\<close>

fun frases_lines :: "SrtLine list \<Rightarrow> SrtFrase list" where
  "frases_lines [] = []"
| "frases_lines (l # ls) = SrtLine_iter l @ frases_lines ls"

fun frases_blocks :: "SrtBlock list \<Rightarrow> SrtFrase list" where
  "frases_blocks [] = []"
| "frases_blocks (b # bs) = frases_lines (lines b) @ frases_blocks bs"

definition SrtDoc_frases :: "SrtDoc \<Rightarrow> SrtFrase list" where
  "SrtDoc_frases d = frases_blocks (blocks d)"

section \<open>Properties of the model\<close>

subsection \<open>Stripping and the text of a match\<close>

lemma strip_ends:
  assumes "strip s \<noteq> []"
  shows "\<not> isspace (hd (strip s))" and "\<not> isspace (last (strip s))"
proof -
  define a where "a = dropWhile isspace s"
  define b where "b = dropWhile isspace (rev a)"
  have s: "strip s = rev b" by (simp add: strip_def a_def b_def)
  with assms have b: "b \<noteq> []" by simp
  then have "\<not> isspace (hd b)" unfolding b_def by (rule hd_dropWhile)
  then show "\<not> isspace (last (strip s))" using b by (simp add: s last_rev)
  from b have a: "a \<noteq> []" by (auto simp: b_def)
  then have ha: "\<not> isspace (hd a)" unfolding a_def by (rule hd_dropWhile)
  obtain u where u: "rev a = u @ b"
    unfolding b_def by (metis takeWhile_dropWhile_id)
  then have "last b = last (rev a)" using b by simp
  also have "\<dots> = hd a" using a by (simp add: last_rev)
  finally show "\<not> isspace (hd (strip s))" using ha b by (simp add: s hd_rev)
qed

lemma strip_id:
  assumes "s \<noteq> []" "\<not> isspace (hd s)" "\<not> isspace (last s)"
  shows "strip s = s"
proof -
  from assms have "dropWhile isspace s = s" by (cases s) auto
  moreover from assms have "dropWhile isspace (rev s) = rev s"
    by (cases "rev s") (auto simp: hd_rev[symmetric])
  ultimately show ?thesis by (simp add: strip_def)
qed

lemma strip_strip: "strip (strip s) = strip s"
proof (cases "strip s = []")
  case True
  have "strip [] = []" by (simp add: strip_def)
  with True show ?thesis by simp
next
  case False
  then show ?thesis by (intro strip_id strip_ends)
qed

lemma match_at_text:
  assumes "match_at prev s = Some (m, r)"
  shows "py_or (group4 m) (group2 m) \<noteq> None"
proof (cases "tagged_run s")
  case Nil
  with assms have "plain_run prev s = Some (m, r)" by (simp add: match_at_def)
  then show ?thesis
    by (auto simp: plain_run_def Let_def py_or_def split: if_splits)
next
  case (Cons x xs)
  with assms have "(m, r) \<in> set (tagged_run s)" by (simp add: match_at_def)
  then show ?thesis
    by (auto dest!: tagged_run_D simp: py_or_def)
qed

lemma scan_text: "m \<in> set (scan prev s) \<Longrightarrow> py_or (group4 m) (group2 m) \<noteq> None"
proof (induction prev s rule: scan.induct)
  case (1 prev s)
  show ?case
  proof (cases "match_at prev s")
    case None
    show ?thesis
    proof (cases s)
      case Nil
      with None "1.prems" show ?thesis by (simp add: scan.simps)
    next
      case (Cons c cs)
      with None "1.prems" have "m \<in> set (scan (Some c) cs)" by (simp add: scan.simps)
      with None Cons "1.IH" show ?thesis by blast
    qed
  next
    case (Some x)
    obtain m' r where x: "x = (m', r)" by (cases x)
    with Some "1.prems" have "m = m' \<or> m \<in> set (scan (prev_char prev s r) r)"
      by (simp add: scan.simps)
    then show ?thesis
    proof
      assume "m = m'"
      with Some x show ?thesis by (simp add: match_at_text)
    next
      assume "m \<in> set (scan (prev_char prev s r) r)"
      with Some x "1.IH" show ?thesis by blast
    qed
  qed
qed

lemma parse_text_total:
  assumes "\<forall>m \<in> set ms. py_or (group4 m) (group2 m) \<noteq> None"
  shows "\<exists>fs'. parse_text ms ic fs = Inr fs'"
  using assms
proof (induction ms arbitrary: fs)
  case Nil
  then show ?case by simp
next
  case (Cons m ms)
  then obtain t where t: "py_or (group4 m) (group2 m) = Some t" by auto
  from Cons have ih: "\<And>fs. \<exists>fs'. parse_text ms ic fs = Inr fs'" by simp
  show ?case
  proof (cases "strip t \<noteq> []")
    case True
    with t ih[of "fs @ [SrtFrase_init (strip t) (group1 m) (group3 m) ic]"]
    show ?thesis by simp
  next
    case False
    with t ih[of fs] show ?thesis by simp
  qed
qed

lemma parse_text_inv:
  assumes "parse_text ms ic fs = Inr fs'" "\<forall>f \<in> set fs. P f"
    and step: "\<And>t a b. strip t \<noteq> [] \<Longrightarrow> P (SrtFrase_init (strip t) a b ic)"
  shows "\<forall>f \<in> set fs'. P f"
  using assms(1,2)
proof (induction ms arbitrary: fs)
  case Nil
  then show ?case by simp
next
  case (Cons m ms)
  from Cons.prems(1) obtain t where t: "py_or (group4 m) (group2 m) = Some t"
    by (cases "py_or (group4 m) (group2 m)") auto
  show ?case
  proof (cases "strip t \<noteq> []")
    case True
    let ?f = "SrtFrase_init (strip t) (group1 m) (group3 m) ic"
    from True t Cons.prems(1) have "parse_text ms ic (fs @ [?f]) = Inr fs'" by simp
    moreover from True Cons.prems(2) have "\<forall>f \<in> set (fs @ [?f]). P f"
      by (simp add: step)
    ultimately show ?thesis by (rule Cons.IH)
  next
    case False
    with t Cons.prems(1) have "parse_text ms ic fs = Inr fs'" by simp
    then show ?thesis using Cons.prems(2) by (rule Cons.IH)
  qed
qed

lemma SrtLine_init_total: "\<exists>l. SrtLine_init s ic = Inr l"
proof -
  have "\<forall>m \<in> set (finditer s). py_or (group4 m) (group2 m) \<noteq> None"
    by (auto simp: finditer_def dest: scan_text)
  from parse_text_total[OF this] obtain fs where "parse_text (finditer s) ic [] = Inr fs"
    by blast
  then show ?thesis by (simp add: SrtLine_init_def)
qed

lemma SrtLine_init_frases:
  assumes "SrtLine_init s ic = Inr l" "f \<in> set (frases l)"
  shows "f_text f \<noteq> [] \<and> strip (f_text f) = f_text f"
proof -
  from assms(1) have p: "parse_text (finditer s) ic [] = Inr (frases l)"
    by (auto simp: SrtLine_init_def split: sum.splits)
  have "\<forall>f \<in> set (frases l). f_text f \<noteq> [] \<and> strip (f_text f) = f_text f"
    by (rule parse_text_inv[OF p]) (simp_all add: SrtFrase_init_def strip_strip)
  with assms(2) show ?thesis by blast
qed


subsection \<open>Lines without markup\<close>

text \<open>A line has no markup when it holds neither \<open><\<close> nor \<open>>\<close>.\<close>

definition no_markup :: "string \<Rightarrow> bool" where
  "no_markup line = (CHR ''<'' \<notin> set line \<and> CHR ''>'' \<notin> set line)"

text \<open>
  The normal form the specification gives for a line without markup: surrounding whitespace
  removed, every run of whitespace inside replaced by one space. \<open>after_ws\<close> says that the
  character before was whitespace.
\<close>

fun collapse_ws :: "bool \<Rightarrow> string \<Rightarrow> string" where
  "collapse_ws after_ws [] = []"
| "collapse_ws after_ws (c # cs) =
     (if isspace c then (if after_ws then collapse_ws True cs else CHR '' '' # collapse_ws True cs)
      else c # collapse_ws False cs)"

definition spec_normalize :: "string \<Rightarrow> string" where
  "spec_normalize line = collapse_ws False (strip line)"

lemma open_font_no_lt: "s = [] \<or> hd s \<noteq> CHR ''<'' \<Longrightarrow> open_font s = []"
  by (cases s) (auto simp: open_font_def seq_def lit_def)

lemma tagged_run_no_lt: "s = [] \<or> hd s \<noteq> CHR ''<'' \<Longrightarrow> tagged_run s = []"
  by (simp add: tagged_run_def open_font_no_lt)

lemma match_at_Nil: "match_at prev [] = None"
  by (simp add: match_at_def tagged_run_no_lt plain_run_def)

lemma scan_Nil: "scan prev [] = []"
  by (simp add: scan.simps match_at_Nil)

lemma finditer_plain:
  assumes "no_markup line" "line \<noteq> []"
  shows "finditer line = [\<lparr>group1 = None, group2 = None, group3 = None, group4 = Some line\<rparr>]"
proof -
  let ?P = "\<lambda>c. c \<noteq> CHR ''<'' \<and> c \<noteq> CHR ''>''"
  from assms(1) have all: "\<forall>c \<in> set line. ?P c" by (auto simp: no_markup_def)
  then have tw: "takeWhile ?P line = line" and dw: "dropWhile ?P line = []"
    by (simp_all add: takeWhile_eq_all_conv)
  from all assms(2) have "hd line \<noteq> CHR ''<''" by (cases line) auto
  then have "tagged_run line = []" by (simp add: tagged_run_no_lt)
  then have "match_at None line =
      Some (\<lparr>group1 = None, group2 = None, group3 = None, group4 = Some line\<rparr>, [])"
    using assms(2) by (simp add: match_at_def plain_run_def tw dw)
  then show ?thesis
    by (simp add: finditer_def scan.simps[of None line] scan_Nil)
qed

lemma finditer_Nil: "finditer [] = []"
  by (simp add: finditer_def scan_Nil)

lemma strip_Nil: "strip [] = []"
  by (simp add: strip_def)

lemma SrtLine_plain:
  assumes "no_markup line"
  shows "SrtLine_init line ic =
     Inr \<lparr>l_ignore_col = ic,
          frases = (if strip line = [] then []
                    else [\<lparr>f_ignore_col = ic, open_tags = [], f_text = strip line,
                            closing_tags = []\<rparr>])\<rparr>"
proof (cases "line = []")
  case True
  then show ?thesis by (simp add: SrtLine_init_def finditer_Nil strip_Nil)
next
  case False
  with assms show ?thesis
    by (simp add: SrtLine_init_def finditer_plain py_or_def SrtFrase_init_def or_empty_def
        strip_strip)
qed

subsection \<open>Splitting into lines\<close>

lemma split_acc_not_Nil: "split_acc acc s \<noteq> []"
  by (induction s arbitrary: acc) auto

lemma split_acc_single: "length (split_acc acc s) < 2 \<Longrightarrow> split_acc acc s = [rev acc @ s]"
proof (induction s arbitrary: acc)
  case Nil
  then show ?case by simp
next
  case (Cons c cs)
  show ?case
  proof (cases "c = CHR 0x0A")
    case True
    have "split_acc [] cs \<noteq> []" by (rule split_acc_not_Nil)
    then have "0 < length (split_acc [] cs)" by simp
    with True Cons.prems show ?thesis by simp
  next
    case False
    with Cons.prems have "length (split_acc (c # acc) cs) < 2" by simp
    then have "split_acc (c # acc) cs = [rev (c # acc) @ cs]" by (rule Cons.IH)
    with False show ?thesis by simp
  qed
qed

lemma split_nl_single: "length (split_nl s) < 2 \<Longrightarrow> split_nl s = [s]"
  unfolding split_nl_def by (drule split_acc_single) simp

subsection \<open>The groups of a tagged run\<close>

text \<open>
  A closing token is a text that \<^verbatim>\<open><\s*/font\s*\<close> matches: \<open><\<close>, whitespace, \<^verbatim>\<open>/font\<close>,
  whitespace.
\<close>

definition is_close_token :: "string \<Rightarrow> bool" where
  "is_close_token t =
     (case t of
        [] \<Rightarrow> False
      | c # r \<Rightarrow> c = CHR ''<'' \<and>
          (let r1 = dropWhile isspace r
           in take 5 r1 = ''/font'' \<and> list_all isspace (drop 5 r1)))"

text \<open>
  A closing token holds its one \<open><\<close> and the final \<open>>\<close> of group 3 holds none: the number of
  closing tokens in a text of group 3 is the number of its \<open><\<close>.
\<close>

definition closing_count :: "string \<Rightarrow> nat" where
  "closing_count c = length (filter (\<lambda>x. x = CHR ''<'') c)"

lemma not_space_slash: "\<not> isspace CHR ''/''"
  by (simp add: isspace_def)

lemma not_space_lt: "\<not> isspace CHR ''<''"
  by (simp add: isspace_def)

lemma is_close_tokenI:
  assumes "list_all isspace w" "list_all isspace v"
  shows "is_close_token (''<'' @ w @ ''/font'' @ v)"
proof -
  from assms(1) have "dropWhile isspace (w @ ''/font'' @ v) = ''/font'' @ v"
    by (simp add: dropWhile_append2 list_all_iff not_space_slash)
  with assms(2) show ?thesis by (simp add: is_close_token_def)
qed

lemma is_close_tokenD:
  assumes "is_close_token t"
  shows "\<exists>w v. t = ''<'' @ w @ ''/font'' @ v \<and> list_all isspace w \<and> list_all isspace v"
proof -
  from assms obtain r where t: "t = CHR ''<'' # r"
    and f: "take 5 (dropWhile isspace r) = ''/font''"
    and v: "list_all isspace (drop 5 (dropWhile isspace r))"
    by (cases t) (auto simp: is_close_token_def Let_def)
  let ?w = "takeWhile isspace r" and ?v = "drop 5 (dropWhile isspace r)"
  have "dropWhile isspace r = ''/font'' @ ?v"
    using f by (metis append_take_drop_id)
  then have "r = ?w @ ''/font'' @ ?v"
    by (metis takeWhile_dropWhile_id)
  moreover have "list_all isspace ?w"
    by (simp add: list_all_iff) (meson set_takeWhileD)
  ultimately have "t = ''<'' @ ?w @ ''/font'' @ ?v \<and> list_all isspace ?w \<and> list_all isspace ?v"
    using t v by simp
  then show ?thesis by blast
qed

lemma closing_count_spaces: "list_all isspace u \<Longrightarrow> closing_count u = 0"
  by (auto simp: closing_count_def list_all_iff filter_empty_conv not_space_lt)

lemma closing_count_append: "closing_count (u @ v) = closing_count u + closing_count v"
  by (simp add: closing_count_def)

lemma closing_count_token: "is_close_token t \<Longrightarrow> closing_count t = 1"
proof -
  assume "is_close_token t"
  then obtain w v where t: "t = ''<'' @ w @ ''/font'' @ v"
    and "list_all isspace w" "list_all isspace v"
    using is_close_tokenD by blast
  then have "closing_count w = 0" "closing_count v = 0"
    by (simp_all add: closing_count_spaces)
  moreover have "closing_count ''<'' = 1" "closing_count ''/font'' = 0"
    by (simp_all add: closing_count_def)
  ultimately show ?thesis
    unfolding t closing_count_append by simp
qed

lemma closing_count_tokens:
  "list_all is_close_token toks \<Longrightarrow> closing_count (concat toks @ ''>'') = length toks"
proof (induction toks)
  case Nil
  then show ?case by (simp add: closing_count_def)
next
  case (Cons t toks)
  then show ?case
    by (simp add: closing_count_append closing_count_token)
qed

lemma consumed_append: "consumed (u @ r) r = u"
  by (simp add: consumed_def)

lemma close_token_tok:
  assumes "r \<in> set (close_token s)"
  shows "\<exists>t. is_close_token t \<and> s = t @ r"
proof -
  from close_token_D[OF assms] obtain w v where
    s: "s = ''<'' @ w @ ''/font'' @ v @ r" and w: "list_all isspace w" and v: "list_all isspace v"
    by blast
  from w v have "is_close_token (''<'' @ w @ ''/font'' @ v)" by (rule is_close_tokenI)
  moreover from s have "s = (''<'' @ w @ ''/font'' @ v) @ r" by simp
  ultimately show ?thesis by blast
qed

lemma close_tokens_from_D:
  "r \<in> set (close_tokens_from rs) \<Longrightarrow>
     \<exists>m \<in> set rs. \<exists>toks. list_all is_close_token toks \<and> m = concat toks @ r"
proof (induction rs arbitrary: r rule: close_tokens_from.induct)
  case 1
  then show ?case by simp
next
  case (2 x xs)
  from "2.prems" consider "r \<in> set (close_tokens_from (close_token x))" | "r = x"
    | "r \<in> set (close_tokens_from xs)"
    by auto
  then show ?case
  proof cases
    case 1
    then obtain m toks where m: "m \<in> set (close_token x)"
      and toks: "list_all is_close_token toks" "m = concat toks @ r"
      using "2.IH"(1) by blast
    from close_token_tok[OF m] obtain t where "is_close_token t" "x = t @ m" by blast
    with toks have "list_all is_close_token (t # toks) \<and> x = concat (t # toks) @ r"
      by simp
    then show ?thesis by (metis list.set_intros(1))
  next
    case 2
    then have "list_all is_close_token [] \<and> x = concat [] @ r" by simp
    then show ?thesis by (metis list.set_intros(1))
  next
    case 3
    then obtain m toks where "m \<in> set xs" "list_all is_close_token toks" "m = concat toks @ r"
      using "2.IH"(2) by blast
    then show ?thesis by (metis list.set_intros(2))
  qed
qed

lemma close_font_D:
  assumes "r \<in> set (close_font s)"
  shows "\<exists>toks. toks \<noteq> [] \<and> list_all is_close_token toks \<and> s = (concat toks @ ''>'') @ r"
proof -
  from assms obtain q where q: "q \<in> set (close_tokens s)" and r: "r \<in> set (lit ''>'' q)"
    unfolding close_font_def seq_iff by blast
  from q obtain m toks where m: "m \<in> set (close_token s)"
    and toks: "list_all is_close_token toks" "m = concat toks @ q"
    unfolding close_tokens_def using close_tokens_from_D by blast
  from close_token_tok[OF m] obtain t where t: "is_close_token t" "s = t @ m" by blast
  from r have "q = ''>'' @ r" by (rule lit_D)
  with t toks have "t # toks \<noteq> [] \<and> list_all is_close_token (t # toks)
      \<and> s = (concat (t # toks) @ ''>'') @ r"
    by simp
  then show ?thesis by blast
qed

lemma tagged_run_groups:
  assumes "(m, r) \<in> set (tagged_run s)"
  shows "\<exists>w a toks. group1 m = Some (''<'' @ w @ ''font'' @ a @ ''>'')
           \<and> list_all isspace w \<and> CHR ''>'' \<notin> set a
           \<and> toks \<noteq> [] \<and> list_all is_close_token toks
           \<and> group3 m = Some (concat toks @ ''>'')"
proof -
  from tagged_run_D[OF assms] obtain r1 r4 g2 where
    r1: "r1 \<in> set (open_font s)" and r: "r \<in> set (close_font r4)"
    and m: "m = \<lparr>group1 = Some (consumed s r1), group2 = g2,
                 group3 = Some (consumed r4 r), group4 = None\<rparr>"
    by blast
  from open_font_D[OF r1] obtain w a where
    s: "s = (''<'' @ w @ ''font'' @ a @ ''>'') @ r1" and w: "list_all isspace w"
    and a: "list_all (\<lambda>c. c \<noteq> CHR ''>'') a"
    by auto
  from close_font_D[OF r] obtain toks where toks: "toks \<noteq> []" "list_all is_close_token toks"
    and r4: "r4 = (concat toks @ ''>'') @ r"
    by blast
  have "consumed s r1 = ''<'' @ w @ ''font'' @ a @ ''>''"
    unfolding s by (rule consumed_append)
  moreover have "consumed r4 r = concat toks @ ''>''"
    unfolding r4 by (rule consumed_append)
  moreover from a have "CHR ''>'' \<notin> set a" by (auto simp: list_all_iff)
  ultimately show ?thesis using m w toks by auto
qed

lemma scan_match_at: "m \<in> set (scan prev s) \<Longrightarrow> \<exists>p t r. match_at p t = Some (m, r)"
proof (induction prev s rule: scan.induct)
  case (1 prev s)
  show ?case
  proof (cases "match_at prev s")
    case None
    show ?thesis
    proof (cases s)
      case Nil
      with None "1.prems" show ?thesis by (simp add: scan.simps)
    next
      case (Cons c cs)
      with None "1.prems" have "m \<in> set (scan (Some c) cs)" by (simp add: scan.simps)
      with None Cons "1.IH" show ?thesis by blast
    qed
  next
    case (Some x)
    obtain m' r where x: "x = (m', r)" by (cases x)
    with Some "1.prems" have "m = m' \<or> m \<in> set (scan (prev_char prev s r) r)"
      by (simp add: scan.simps)
    then show ?thesis
    proof
      assume "m = m'"
      with Some x show ?thesis by blast
    next
      assume "m \<in> set (scan (prev_char prev s r) r)"
      with Some x "1.IH" show ?thesis by blast
    qed
  qed
qed

lemma match_at_cases:
  assumes "match_at prev s = Some (m, r)"
  shows "(m, r) \<in> set (tagged_run s) \<or> plain_run prev s = Some (m, r)"
  using assms by (cases "tagged_run s") (auto simp: match_at_def)

lemma plain_run_group1: "plain_run prev s = Some (m, r) \<Longrightarrow> group1 m = None"
  by (auto simp: plain_run_def Let_def split: if_splits)

subsection \<open>Rendering a document\<close>

lemma block_iter_strings:
  "snd (block_iter k bs) =
     map (\<lambda>(i, b). SrtBlock_str (set_idx (str_int i) b)) (enumerate k (filter SrtBlock_bool bs))"
  by (induction bs arbitrary: k) (simp_all add: split_beta Let_def)

lemma map_upt_Suc_shift: "map f [0..<Suc n] = f 0 # map (\<lambda>i. f (Suc i)) [0..<n]"
proof -
  have "[0..<Suc n] = 0 # map Suc [0..<n]"
    by (simp add: upt_conv_Cons map_Suc_upt del: upt_Suc)
  then show ?thesis by (simp add: comp_def del: upt_Suc)
qed

lemma block_iter_blocks:
  "fst (block_iter k bs) =
     map (\<lambda>n. if SrtBlock_bool (bs ! n)
               then set_idx (str_int (k + length (filter SrtBlock_bool (take n bs)))) (bs ! n)
               else bs ! n)
         [0..<length bs]"
proof (induction bs arbitrary: k)
  case Nil
  then show ?case by simp
next
  case (Cons b bs)
  show ?case
  proof (cases "SrtBlock_bool b")
    case True
    then show ?thesis
      unfolding length_Cons map_upt_Suc_shift
      by (simp add: split_beta Let_def Cons.IH)
  next
    case False
    then show ?thesis
      unfolding length_Cons map_upt_Suc_shift
      by (simp add: split_beta Let_def Cons.IH)
  qed
qed

lemma SrtBlock_str_present:
  "lines b \<noteq> [] \<Longrightarrow>
     SrtBlock_str (set_idx i b) =
       i @ [CHR 0x0A] @ b_time b @ [CHR 0x0A]
         @ join [CHR 0x0A] (map SrtLine_str (filter SrtLine_bool (lines b)) @ [[CHR 0x0A]])"
proof -
  assume "lines b \<noteq> []"
  moreover obtain x xs where "map SrtLine_str (filter SrtLine_bool (lines b)) @ [[CHR 0x0A]] = x # xs"
    by (cases "map SrtLine_str (filter SrtLine_bool (lines b)) @ [[CHR 0x0A]]") auto
  ultimately show ?thesis
    by (simp add: SrtBlock_str_def SrtBlock_bool_def set_idx_def)
qed

lemma str_int_1: "str_int (Suc 0) = ''1''"
  by code_simp

lemma str_int_2: "str_int (Suc (Suc 0)) = ''2''"
  by code_simp

text \<open>A document of three blocks with the indices 1, 5 and 7; the block 5 has no text line.\<close>

definition doc157 :: string where
  "doc157 = ''1\<newline>t1\<newline>Hello\<newline>\<newline>5\<newline>t5\<newline>\<newline>7\<newline>t7\<newline>World\<newline>''"

subsection \<open>The attribute written by the setter of \<open>SrtDoc.text\<close>\<close>

lemma SrtBlock_bool_text_attr [simp]: "SrtBlock_bool (set_text_attr v b) = SrtBlock_bool b"
  by (simp add: SrtBlock_bool_def set_text_attr_def)

lemma SrtBlock_str_text_attr:
  "SrtBlock_str (set_idx i (set_text_attr v b)) = SrtBlock_str (set_idx i b)"
  by (simp add: SrtBlock_str_def SrtBlock_bool_def set_idx_def set_text_attr_def)

lemma block_iter_zip_assign:
  "snd (block_iter k (zip_assign bs ts)) = snd (block_iter k bs)"
proof (induction bs ts arbitrary: k rule: zip_assign.induct)
  case (1 ts)
  then show ?case by simp
next
  case (2 orig os)
  then show ?case by simp
next
  case (3 orig os tr ts)
  then show ?case
    by (simp add: split_beta Let_def SrtBlock_str_text_attr)
qed

subsection \<open>Construction never raises\<close>

lemma parse_lines_total: "\<exists>ls'. parse_lines xs nc ls = (ls', None)"
proof (induction xs arbitrary: ls)
  case Nil
  then show ?case by simp
next
  case (Cons x xs)
  obtain l where l: "SrtLine_init (strip x) nc = Inr l"
    using SrtLine_init_total by blast
  show ?case
  proof (cases "SrtLine_bool l")
    case True
    with l Cons[of "ls @ [l]"] show ?thesis by simp
  next
    case False
    with l Cons[of ls] show ?thesis by simp
  qed
qed

lemma try_body_result:
  "\<exists>b'. (try_body b ls nc = (b', None) \<or> try_body b ls nc = (b', Some IndexError))
        \<and> text_attr b' = text_attr b"
proof (cases ls)
  case Nil
  then show ?thesis by (simp add: try_body_def)
next
  case (Cons l0 rest)
  show ?thesis
  proof (cases rest)
    case Nil
    with Cons show ?thesis by (simp add: try_body_def set_idx_def)
  next
    case (Cons l1 body)
    obtain ls' where "parse_lines body nc (lines (set_time l1 (set_idx l0 b))) = (ls', None)"
      using parse_lines_total by blast
    with Cons \<open>ls = l0 # rest\<close> show ?thesis
      by (simp add: try_body_def set_idx_def set_time_def set_lines_def)
  qed
qed

lemma SrtBlock_init_total: "\<exists>b. SrtBlock_init c ic = Inr b \<and> text_attr b = None"
proof -
  obtain b' where
    "try_body (SrtBlock [] [] [] None) (split_nl (strip c)) ic = (b', None)
     \<or> try_body (SrtBlock [] [] [] None) (split_nl (strip c)) ic = (b', Some IndexError)"
    and "text_attr b' = text_attr (SrtBlock [] [] [] None)"
    using try_body_result by blast
  then show ?thesis
    by (auto simp: SrtBlock_init_def SrtBlock_parse_def)
qed

lemma init_blocks_total:
  "\<exists>bs. init_blocks cs ic = Inr bs \<and> list_all (\<lambda>b. text_attr b = None) bs"
proof (induction cs)
  case Nil
  then show ?case by simp
next
  case (Cons c cs)
  then obtain bs where bs: "init_blocks cs ic = Inr bs" "list_all (\<lambda>b. text_attr b = None) bs"
    by blast
  obtain b where b: "SrtBlock_init c ic = Inr b" "text_attr b = None"
    using SrtBlock_init_total by blast
  show ?case
  proof (cases "c = []")
    case True
    with bs show ?thesis by simp
  next
    case False
    with bs b show ?thesis by simp
  qed
qed

lemma SrtDoc_init_total:
  "\<exists>d. SrtDoc_init s ic = Inr d \<and> list_all (\<lambda>b. text_attr b = None) (blocks d)"
proof -
  obtain bs where "init_blocks (split_nlnl s) ic = Inr bs" "list_all (\<lambda>b. text_attr b = None) bs"
    using init_blocks_total by blast
  then show ?thesis by (simp add: SrtDoc_init_def)
qed

lemma block_texts_zip_assign:
  "length bs \<le> length ts \<Longrightarrow> \<exists>vs. block_texts (zip_assign bs ts) = Inr vs"
proof (induction bs ts rule: zip_assign.induct)
  case (1 ts)
  then show ?case by simp
next
  case (2 orig os)
  then show ?case by simp
next
  case (3 orig os tr ts)
  then show ?case by (auto simp: set_text_attr_def)
qed

subsection \<open>The traversal of the spans\<close>

text \<open>
  Two documents have the same structure when they have as many blocks, corresponding blocks
  have as many lines and corresponding lines as many spans, and the spans at corresponding
  places are related by \<open>R\<close>: no block, line or span was added or removed between them.
\<close>

definition same_structure :: "(SrtFrase \<Rightarrow> SrtFrase \<Rightarrow> bool) \<Rightarrow> SrtDoc \<Rightarrow> SrtDoc \<Rightarrow> bool" where
  "same_structure R d d' =
     list_all2 (\<lambda>b b'. list_all2 (\<lambda>l l'. list_all2 R (frases l) (frases l'))
                                  (lines b) (lines b'))
               (blocks d) (blocks d')"

text \<open>
  The same span, but for its text: the text is the one field that a setter of the module
  writes after construction.
\<close>

definition same_span :: "SrtFrase \<Rightarrow> SrtFrase \<Rightarrow> bool" where
  "same_span f f' =
     (open_tags f = open_tags f' \<and> closing_tags f = closing_tags f'
      \<and> f_ignore_col f = f_ignore_col f')"

lemma frases_lines_concat: "frases_lines ls = concat (map frases ls)"
  by (induction ls) (simp_all add: SrtLine_iter_def)

lemma frases_blocks_concat:
  "frases_blocks bs = concat (map (\<lambda>b. concat (map frases (lines b))) bs)"
  by (induction bs) (simp_all add: frases_lines_concat)

lemma frases_lines_length: "length (frases_lines ls) = sum_list (map (\<lambda>l. length (frases l)) ls)"
  by (induction ls) (simp_all add: SrtLine_iter_def)

lemma frases_blocks_length:
  "length (frases_blocks bs) =
     sum_list (map (\<lambda>b. sum_list (map (\<lambda>l. length (frases l)) (lines b))) bs)"
  by (induction bs) (simp_all add: frases_lines_length)

lemma frases_lines_rel:
  "list_all2 (\<lambda>l l'. list_all2 R (frases l) (frases l')) ls ls' \<Longrightarrow>
     list_all2 R (frases_lines ls) (frases_lines ls')"
  by (induction ls ls' rule: list_all2_induct)
     (simp_all add: list_all2_appendI SrtLine_iter_def)

lemma frases_blocks_rel:
  "list_all2 (\<lambda>b b'. list_all2 (\<lambda>l l'. list_all2 R (frases l) (frases l'))
                                 (lines b) (lines b')) bs bs' \<Longrightarrow>
     list_all2 R (frases_blocks bs) (frases_blocks bs')"
  by (induction bs bs' rule: list_all2_induct)
     (simp_all add: list_all2_appendI frases_lines_rel)

lemma block_iter_lines:
  "map lines (fst (block_iter k bs)) = map lines bs"
  by (induction bs arbitrary: k) (simp_all add: split_beta Let_def set_idx_def)

lemma zip_assign_lines: "map lines (zip_assign bs ts) = map lines bs"
  by (induction bs ts rule: zip_assign.induct) (simp_all add: set_text_attr_def)

lemma frases_blocks_lines: "map lines bs = map lines bs' \<Longrightarrow> frases_blocks bs = frases_blocks bs'"
proof (induction bs arbitrary: bs')
  case Nil
  then show ?case by simp
next
  case (Cons b bs)
  then obtain c cs where "bs' = c # cs" "lines b = lines c" "map lines bs = map lines cs"
    by (cases bs') auto
  with Cons.IH[of cs] show ?case by simp
qed

section \<open>The claims\<close>

text \<open>
  C1, as the code has it. For every line without markup, rendering the parsed line gives the
  line with the surrounding whitespace removed; the whitespace inside the line stays as it
  is.
\<close>

theorem plain_text_round_trip:
  "no_markup line \<Longrightarrow> map_sum id SrtLine_str (SrtLine_init line ic) = Inr (strip line)"
  by (simp add: SrtLine_plain SrtLine_str_def SrtFrase_str_def)

text \<open>The line \<^verbatim>\<open> a  b \<close> renders to \<^verbatim>\<open>a  b\<close>.\<close>

theorem plain_text_round_trip_witness:
  "no_markup '' a  b '' \<and> map_sum id SrtLine_str (SrtLine_init '' a  b '' False) = Inr ''a  b''"
proof -
  have n: "no_markup '' a  b ''" by (simp add: no_markup_def)
  have s: "strip '' a  b '' = ''a  b''" by code_simp
  from plain_text_round_trip[OF n, of False] n s show ?thesis by simp
qed

text \<open>
  C1 as stated fails: the line \<^verbatim>\<open>a  b\<close> has no markup, it renders to itself with both
  spaces, and its normal form has one space.
\<close>

theorem plain_text_not_collapsed:
  "no_markup ''a  b''
   \<and> map_sum id SrtLine_str (SrtLine_init ''a  b'' False) = Inr ''a  b''
   \<and> spec_normalize ''a  b'' = ''a b''"
  by code_simp

text \<open>
  C2. The render of a document takes the blocks in their order, leaves out every block
  without lines, gives each remaining block the string of a counter that starts at 1 as its
  index before it renders the block, and returns the rendered blocks one after the other
  with nothing between them. The render writes these indices into the blocks of the
  document: afterwards a block with lines has as its index the string of one more than the
  number of blocks with lines before it, and a block without lines is as it was. The
  document with the blocks 1, 5 and 7, of which 5 has no text line, renders to the blocks 1
  and 2, in their order, and is left with the indices 1, 5 and 2.
\<close>

theorem render_renumbers:
  "snd (SrtDoc_str d) =
     concat (map (\<lambda>(i, b). SrtBlock_str (set_idx (str_int i) b))
                 (enumerate 1 (filter SrtBlock_bool (blocks d))))
   \<and> blocks (fst (SrtDoc_str d)) =
       map (\<lambda>n. if SrtBlock_bool (blocks d ! n)
                 then set_idx (str_int (1 + length (filter SrtBlock_bool (take n (blocks d)))))
                        (blocks d ! n)
                 else blocks d ! n)
           [0..<length (blocks d)]
   \<and> (lines b1 \<noteq> [] \<and> lines b2 = [] \<and> lines b3 \<noteq> [] \<longrightarrow>
        snd (SrtDoc_str \<lparr>blocks = [b1, b2, b3]\<rparr>) =
          SrtBlock_str (set_idx ''1'' b1) @ SrtBlock_str (set_idx ''2'' b3)
        \<and> fst (SrtDoc_str \<lparr>blocks = [b1, b2, b3]\<rparr>) =
          \<lparr>blocks = [set_idx ''1'' b1, b2, set_idx ''2'' b3]\<rparr>)
   \<and> (lines b \<noteq> [] \<longrightarrow>
        SrtBlock_str (set_idx i b) =
          i @ [CHR 0x0A] @ b_time b @ [CHR 0x0A]
            @ join [CHR 0x0A] (map SrtLine_str (filter SrtLine_bool (lines b)) @ [[CHR 0x0A]]))
   \<and> map_sum id (map idx \<circ> blocks) (SrtDoc_init doc157 False) = Inr [''1'', ''5'', ''7'']
   \<and> map_sum id (map (map SrtLine_str \<circ> lines) \<circ> blocks) (SrtDoc_init doc157 False)
        = Inr [[''Hello''], [], [''World'']]
   \<and> map_sum id (snd \<circ> SrtDoc_str) (SrtDoc_init doc157 False)
        = Inr ''1\<newline>t1\<newline>Hello\<newline>\<newline>2\<newline>t7\<newline>World\<newline>\<newline>''
   \<and> map_sum id (map idx \<circ> blocks \<circ> fst \<circ> SrtDoc_str) (SrtDoc_init doc157 False)
        = Inr [''1'', ''5'', ''2'']"
proof (intro conjI impI)
  show "snd (SrtDoc_str d) =
     concat (map (\<lambda>(i, b). SrtBlock_str (set_idx (str_int i) b))
                 (enumerate 1 (filter SrtBlock_bool (blocks d))))"
    by (simp add: SrtDoc_str_def split_beta block_iter_strings)
  show "blocks (fst (SrtDoc_str d)) =
       map (\<lambda>n. if SrtBlock_bool (blocks d ! n)
                 then set_idx (str_int (1 + length (filter SrtBlock_bool (take n (blocks d)))))
                        (blocks d ! n)
                 else blocks d ! n)
           [0..<length (blocks d)]"
    by (simp add: SrtDoc_str_def split_beta block_iter_blocks del: upt_Suc)
  show "snd (SrtDoc_str \<lparr>blocks = [b1, b2, b3]\<rparr>) =
          SrtBlock_str (set_idx ''1'' b1) @ SrtBlock_str (set_idx ''2'' b3)"
    if "lines b1 \<noteq> [] \<and> lines b2 = [] \<and> lines b3 \<noteq> []"
    using that
    by (simp add: SrtDoc_str_def split_beta Let_def SrtBlock_bool_def str_int_1 str_int_2)
  show "fst (SrtDoc_str \<lparr>blocks = [b1, b2, b3]\<rparr>) =
          \<lparr>blocks = [set_idx ''1'' b1, b2, set_idx ''2'' b3]\<rparr>"
    if "lines b1 \<noteq> [] \<and> lines b2 = [] \<and> lines b3 \<noteq> []"
    using that
    by (simp add: SrtDoc_str_def split_beta Let_def SrtBlock_bool_def str_int_1 str_int_2)
  show "SrtBlock_str (set_idx i b) =
          i @ [CHR 0x0A] @ b_time b @ [CHR 0x0A]
            @ join [CHR 0x0A] (map SrtLine_str (filter SrtLine_bool (lines b)) @ [[CHR 0x0A]])"
    if "lines b \<noteq> []"
    using that by (rule SrtBlock_str_present)
  show "map_sum id (map idx \<circ> blocks) (SrtDoc_init doc157 False) = Inr [''1'', ''5'', ''7'']"
    by code_simp
  show "map_sum id (map (map SrtLine_str \<circ> lines) \<circ> blocks) (SrtDoc_init doc157 False)
        = Inr [[''Hello''], [], [''World'']]"
    by code_simp
  show "map_sum id (snd \<circ> SrtDoc_str) (SrtDoc_init doc157 False)
        = Inr ''1\<newline>t1\<newline>Hello\<newline>\<newline>2\<newline>t7\<newline>World\<newline>\<newline>''"
    by code_simp
  show "map_sum id (map idx \<circ> blocks \<circ> fst \<circ> SrtDoc_str) (SrtDoc_init doc157 False)
        = Inr [''1'', ''5'', ''2'']"
    by code_simp
qed

text \<open>Three blocks with the indices 1, 5 and 7, the second without lines.\<close>

theorem render_renumbers_witness:
  "snd (SrtDoc_str \<lparr>blocks =
      [SrtBlock ''1'' ''t1'' [\<lparr>l_ignore_col = False, frases =
          [\<lparr>f_ignore_col = False, open_tags = [], f_text = ''Hello'', closing_tags = []\<rparr>]\<rparr>] None,
       SrtBlock ''5'' ''t5'' [] None,
       SrtBlock ''7'' ''t7'' [\<lparr>l_ignore_col = False, frases =
          [\<lparr>f_ignore_col = False, open_tags = [], f_text = ''World'', closing_tags = []\<rparr>]\<rparr>] None]\<rparr>)
   = ''1\<newline>t1\<newline>Hello\<newline>\<newline>'' @ ''2\<newline>t7\<newline>World\<newline>\<newline>''
   \<and> map idx (blocks (fst (SrtDoc_str \<lparr>blocks =
      [SrtBlock ''1'' ''t1'' [\<lparr>l_ignore_col = False, frases =
          [\<lparr>f_ignore_col = False, open_tags = [], f_text = ''Hello'', closing_tags = []\<rparr>]\<rparr>] None,
       SrtBlock ''5'' ''t5'' [] None,
       SrtBlock ''7'' ''t7'' [\<lparr>l_ignore_col = False, frases =
          [\<lparr>f_ignore_col = False, open_tags = [], f_text = ''World'', closing_tags = []\<rparr>]\<rparr>] None]\<rparr>)))
   = [''1'', ''5'', ''2'']"
proof -
  let ?b1 = "SrtBlock ''1'' ''t1'' [\<lparr>l_ignore_col = False, frases =
          [\<lparr>f_ignore_col = False, open_tags = [], f_text = ''Hello'', closing_tags = []\<rparr>]\<rparr>] None"
  let ?b2 = "SrtBlock ''5'' ''t5'' [] None"
  let ?b3 = "SrtBlock ''7'' ''t7'' [\<lparr>l_ignore_col = False, frases =
          [\<lparr>f_ignore_col = False, open_tags = [], f_text = ''World'', closing_tags = []\<rparr>]\<rparr>] None"
  have h: "lines ?b1 \<noteq> [] \<and> lines ?b2 = [] \<and> lines ?b3 \<noteq> []" by simp
  have r1: "SrtBlock_str (set_idx ''1'' ?b1) = ''1\<newline>t1\<newline>Hello\<newline>\<newline>''" by code_simp
  have r3: "SrtBlock_str (set_idx ''2'' ?b3) = ''2\<newline>t7\<newline>World\<newline>\<newline>''" by code_simp
  from render_renumbers[of _ ?b1 ?b2 ?b3] h
  have s: "snd (SrtDoc_str \<lparr>blocks = [?b1, ?b2, ?b3]\<rparr>) =
          SrtBlock_str (set_idx ''1'' ?b1) @ SrtBlock_str (set_idx ''2'' ?b3)"
    and f: "fst (SrtDoc_str \<lparr>blocks = [?b1, ?b2, ?b3]\<rparr>) =
          \<lparr>blocks = [set_idx ''1'' ?b1, ?b2, set_idx ''2'' ?b3]\<rparr>"
    by blast+
  from s have "snd (SrtDoc_str \<lparr>blocks = [?b1, ?b2, ?b3]\<rparr>) =
      ''1\<newline>t1\<newline>Hello\<newline>\<newline>'' @ ''2\<newline>t7\<newline>World\<newline>\<newline>''"
    unfolding r1 r3 .
  moreover from f have "map idx (blocks (fst (SrtDoc_str \<lparr>blocks = [?b1, ?b2, ?b3]\<rparr>)))
      = [''1'', ''5'', ''2'']"
    by (simp add: set_idx_def)
  ultimately show ?thesis by (rule conjI)
qed

text \<open>
  C3. Parsing the line \<^verbatim>\<open><font color="#ff0000">Hello</font>\<close> without suppression of the
  markup yields exactly one span, with the text \<^verbatim>\<open>Hello\<close>, the opening markup
  \<^verbatim>\<open><font color="#ff0000">\<close> and the closing markup \<^verbatim>\<open></font>\<close>; rendering that line
  gives the input back, character by character.
\<close>

theorem tag_round_trip:
  "SrtLine_init ''<font color=\"#ff0000\">Hello</font>'' False =
     Inr \<lparr>l_ignore_col = False,
          frases = [\<lparr>f_ignore_col = False, open_tags = ''<font color=\"#ff0000\">'',
                     f_text = ''Hello'', closing_tags = ''</font>''\<rparr>]\<rparr>
   \<and> SrtLine_str \<lparr>l_ignore_col = False,
          frases = [\<lparr>f_ignore_col = False, open_tags = ''<font color=\"#ff0000\">'',
                     f_text = ''Hello'', closing_tags = ''</font>''\<rparr>]\<rparr>
       = ''<font color=\"#ff0000\">Hello</font>''"
  by code_simp

text \<open>
  C4. The traversal \<open>frases\<close> of a document yields the spans that its lines hold, every one of
  them once, in document order: block by block, line by line, span by span of the list the
  line holds; its length is the number of spans in the lines of the document. What it
  yields depends on the structure alone: on two documents of the same structure (the
  document at the first pass and at the second, with no block, line or span added or
  removed in between) it yields sequences of the same length with corresponding spans at
  the same positions. Neither the render, which rewrites the indices, nor the setter of
  \<open>SrtDoc.text\<close> changes what it yields.
\<close>

theorem traversal_stable:
  "SrtDoc_frases d = concat (map (\<lambda>b. concat (map frases (lines b))) (blocks d))
   \<and> length (SrtDoc_frases d) =
       sum_list (map (\<lambda>b. sum_list (map (\<lambda>l. length (frases l)) (lines b))) (blocks d))
   \<and> (same_structure R d d' \<longrightarrow>
        list_all2 R (SrtDoc_frases d) (SrtDoc_frases d')
        \<and> length (SrtDoc_frases d) = length (SrtDoc_frases d'))
   \<and> SrtDoc_frases (fst (SrtDoc_str d)) = SrtDoc_frases d
   \<and> SrtDoc_frases (SrtDoc_set_text d v) = SrtDoc_frases d"
proof (intro conjI impI)
  show "SrtDoc_frases d = concat (map (\<lambda>b. concat (map frases (lines b))) (blocks d))"
    by (simp add: SrtDoc_frases_def frases_blocks_concat)
  show "length (SrtDoc_frases d) =
       sum_list (map (\<lambda>b. sum_list (map (\<lambda>l. length (frases l)) (lines b))) (blocks d))"
    by (simp add: SrtDoc_frases_def frases_blocks_length)
  show "SrtDoc_frases (fst (SrtDoc_str d)) = SrtDoc_frases d"
    by (simp add: SrtDoc_frases_def SrtDoc_str_def split_beta
        frases_blocks_lines[OF block_iter_lines])
  show "SrtDoc_frases (SrtDoc_set_text d v) = SrtDoc_frases d"
    by (simp add: SrtDoc_frases_def SrtDoc_set_text_def frases_blocks_lines[OF zip_assign_lines])
next
  assume "same_structure R d d'"
  then show r: "list_all2 R (SrtDoc_frases d) (SrtDoc_frases d')"
    unfolding same_structure_def SrtDoc_frases_def by (rule frases_blocks_rel)
  then show "length (SrtDoc_frases d) = length (SrtDoc_frases d')"
    by (rule list_all2_lengthD)
qed

text \<open>
  A document before and after its two span texts and its index were overwritten: the
  traversal yields the two spans of the line, in their order, both times.
\<close>

theorem traversal_stable_witness:
  "same_structure same_span
     \<lparr>blocks = [SrtBlock ''1'' ''t1''
        [\<lparr>l_ignore_col = False,
          frases = [\<lparr>f_ignore_col = False, open_tags = ''<font>'', f_text = ''Hi'',
                     closing_tags = ''</font>''\<rparr>,
                    \<lparr>f_ignore_col = False, open_tags = [], f_text = ''there'',
                     closing_tags = []\<rparr>]\<rparr>] None]\<rparr>
     \<lparr>blocks = [SrtBlock ''9'' ''t1''
        [\<lparr>l_ignore_col = False,
          frases = [\<lparr>f_ignore_col = False, open_tags = ''<font>'', f_text = ''Salut'',
                     closing_tags = ''</font>''\<rparr>,
                    \<lparr>f_ignore_col = False, open_tags = [], f_text = ''toi'',
                     closing_tags = []\<rparr>]\<rparr>] None]\<rparr>
   \<and> list_all2 same_span
     (SrtDoc_frases \<lparr>blocks = [SrtBlock ''1'' ''t1''
        [\<lparr>l_ignore_col = False,
          frases = [\<lparr>f_ignore_col = False, open_tags = ''<font>'', f_text = ''Hi'',
                     closing_tags = ''</font>''\<rparr>,
                    \<lparr>f_ignore_col = False, open_tags = [], f_text = ''there'',
                     closing_tags = []\<rparr>]\<rparr>] None]\<rparr>)
     (SrtDoc_frases \<lparr>blocks = [SrtBlock ''9'' ''t1''
        [\<lparr>l_ignore_col = False,
          frases = [\<lparr>f_ignore_col = False, open_tags = ''<font>'', f_text = ''Salut'',
                     closing_tags = ''</font>''\<rparr>,
                    \<lparr>f_ignore_col = False, open_tags = [], f_text = ''toi'',
                     closing_tags = []\<rparr>]\<rparr>] None]\<rparr>)
   \<and> SrtDoc_frases \<lparr>blocks = [SrtBlock ''9'' ''t1''
        [\<lparr>l_ignore_col = False,
          frases = [\<lparr>f_ignore_col = False, open_tags = ''<font>'', f_text = ''Salut'',
                     closing_tags = ''</font>''\<rparr>,
                    \<lparr>f_ignore_col = False, open_tags = [], f_text = ''toi'',
                     closing_tags = []\<rparr>]\<rparr>] None]\<rparr>
     = [\<lparr>f_ignore_col = False, open_tags = ''<font>'', f_text = ''Salut'',
          closing_tags = ''</font>''\<rparr>,
        \<lparr>f_ignore_col = False, open_tags = [], f_text = ''toi'', closing_tags = []\<rparr>]"
proof -
  let ?d = "\<lparr>blocks = [SrtBlock ''1'' ''t1''
        [\<lparr>l_ignore_col = False,
          frases = [\<lparr>f_ignore_col = False, open_tags = ''<font>'', f_text = ''Hi'',
                     closing_tags = ''</font>''\<rparr>,
                    \<lparr>f_ignore_col = False, open_tags = [], f_text = ''there'',
                     closing_tags = []\<rparr>]\<rparr>] None]\<rparr>"
  let ?d' = "\<lparr>blocks = [SrtBlock ''9'' ''t1''
        [\<lparr>l_ignore_col = False,
          frases = [\<lparr>f_ignore_col = False, open_tags = ''<font>'', f_text = ''Salut'',
                     closing_tags = ''</font>''\<rparr>,
                    \<lparr>f_ignore_col = False, open_tags = [], f_text = ''toi'',
                     closing_tags = []\<rparr>]\<rparr>] None]\<rparr>"
  have h: "same_structure same_span ?d ?d'"
    by (simp add: same_structure_def same_span_def)
  from traversal_stable[of ?d same_span ?d'] h
  have "list_all2 same_span (SrtDoc_frases ?d) (SrtDoc_frases ?d')" by blast
  moreover from traversal_stable[of ?d' same_span ?d']
  have "SrtDoc_frases ?d' = concat (map (\<lambda>b. concat (map frases (lines b))) (blocks ?d'))"
    by blast
  then have "SrtDoc_frases ?d'
     = [\<lparr>f_ignore_col = False, open_tags = ''<font>'', f_text = ''Salut'',
          closing_tags = ''</font>''\<rparr>,
        \<lparr>f_ignore_col = False, open_tags = [], f_text = ''toi'', closing_tags = []\<rparr>]"
    by simp
  ultimately show ?thesis using h by blast
qed

text \<open>
  C5. A chunk whose stripped content has fewer than two lines makes a block without raising:
  the index is the one line there is, the time stays empty, and the block has no lines.
  No other chunk makes the construction of a block raise either.
\<close>

theorem truncated_chunk:
  "length (split_nl (strip chunk)) < 2 \<Longrightarrow>
     SrtBlock_init chunk ic = Inr (SrtBlock (strip chunk) [] [] None)
     \<and> (\<exists>b. SrtBlock_init any_chunk ic = Inr b)"
proof
  assume "length (split_nl (strip chunk)) < 2"
  then have "split_nl (strip chunk) = [strip chunk]" by (rule split_nl_single)
  then show "SrtBlock_init chunk ic = Inr (SrtBlock (strip chunk) [] [] None)"
    by (simp add: SrtBlock_init_def SrtBlock_parse_def try_body_def set_idx_def)
  show "\<exists>b. SrtBlock_init any_chunk ic = Inr b"
    using SrtBlock_init_total by blast
qed

text \<open>The chunk \<^verbatim>\<open> 7 \<close> has one line and gives the block with index \<^verbatim>\<open>7\<close>.\<close>

theorem truncated_chunk_witness:
  "length (split_nl (strip '' 7 '')) < 2
   \<and> SrtBlock_init '' 7 '' False = Inr (SrtBlock ''7'' [] [] None)"
proof -
  have l: "length (split_nl (strip '' 7 '')) < 2" by code_simp
  have s: "strip '' 7 '' = ''7''" by code_simp
  from truncated_chunk[OF l, of False] l s show ?thesis by simp
qed

text \<open>
  C6. The render rule of a span: the empty string when the text is empty; else the text
  alone when the markup is suppressed; else opening markup, text and closing markup, one
  after the other. The line of C3 parsed with the markup suppressed renders to
  \<^verbatim>\<open>Hello\<close>.
\<close>

theorem span_render_rule:
  "SrtFrase_str f =
     (if SrtFrase_text f = [] then []
      else if f_ignore_col f then SrtFrase_text f
      else open_tags f @ SrtFrase_text f @ closing_tags f)
   \<and> map_sum id SrtLine_str (SrtLine_init ''<font color=\"#ff0000\">Hello</font>'' True)
       = Inr ''Hello''"
proof
  show "SrtFrase_str f =
     (if SrtFrase_text f = [] then []
      else if f_ignore_col f then SrtFrase_text f
      else open_tags f @ SrtFrase_text f @ closing_tags f)"
    by (simp add: SrtFrase_str_def SrtFrase_text_def)
  show "map_sum id SrtLine_str (SrtLine_init ''<font color=\"#ff0000\">Hello</font>'' True)
       = Inr ''Hello''"
    by code_simp
qed

text \<open>
  C7, as the code has it. Every line can be parsed, and every span that the line holds when
  parsing returns it has a text that is not empty and is stripped of surrounding
  whitespace: a match whose stripped text is empty is not inserted. In particular the line
  \<^verbatim>\<open><font color="red"></font>\<close> has no span. A span whose text is set to the empty string
  afterwards stays in its line.
\<close>

theorem no_empty_spans:
  "(\<exists>l. SrtLine_init s ic = Inr l
      \<and> (\<forall>f \<in> set (frases l). SrtFrase_text f \<noteq> [] \<and> strip (SrtFrase_text f) = SrtFrase_text f))
   \<and> SrtLine_init ''<font color=\"red\"></font>'' ic = Inr \<lparr>l_ignore_col = ic, frases = []\<rparr>
   \<and> (n < length (frases l0) \<longrightarrow>
        (\<exists>l'. SrtLine_set_text_at l0 n [] = Inr l'
           \<and> length (frases l') = length (frases l0)
           \<and> SrtFrase_text (frases l' ! n) = []))"
proof (intro conjI impI)
  obtain l where l: "SrtLine_init s ic = Inr l"
    using SrtLine_init_total by blast
  then have "\<forall>f \<in> set (frases l). SrtFrase_text f \<noteq> [] \<and> strip (SrtFrase_text f) = SrtFrase_text f"
    unfolding SrtFrase_text_def using SrtLine_init_frases by blast
  with l show "\<exists>l. SrtLine_init s ic = Inr l
      \<and> (\<forall>f \<in> set (frases l). SrtFrase_text f \<noteq> [] \<and> strip (SrtFrase_text f) = SrtFrase_text f)"
    by blast
  have "finditer ''<font color=\"red\"></font>'' =
     [\<lparr>group1 = Some ''<font color=\"red\">'', group2 = Some [], group3 = Some ''</font>'',
       group4 = None\<rparr>]"
    by code_simp
  then show "SrtLine_init ''<font color=\"red\"></font>'' ic = Inr \<lparr>l_ignore_col = ic, frases = []\<rparr>"
    by (simp add: SrtLine_init_def py_or_def strip_def)
  show "\<exists>l'. SrtLine_set_text_at l0 n [] = Inr l'
           \<and> length (frases l') = length (frases l0)
           \<and> SrtFrase_text (frases l' ! n) = []"
    if "n < length (frases l0)"
    using that by (simp add: SrtLine_set_text_at_def SrtFrase_set_text_def SrtFrase_text_def)
qed

text \<open>The line \<^verbatim>\<open>a  b \<close> has one span, and C7 gives its properties.\<close>

theorem no_empty_spans_witness:
  "SrtLine_init ''a  b '' False =
      Inr \<lparr>l_ignore_col = False,
           frases = [\<lparr>f_ignore_col = False, open_tags = [], f_text = ''a  b'', closing_tags = []\<rparr>]\<rparr>
   \<and> SrtFrase_text \<lparr>f_ignore_col = False, open_tags = [], f_text = ''a  b'', closing_tags = []\<rparr> \<noteq> []
   \<and> strip ''a  b'' = ''a  b''
   \<and> (\<exists>l'. SrtLine_set_text_at
          \<lparr>l_ignore_col = False,
           frases = [\<lparr>f_ignore_col = False, open_tags = [], f_text = ''a  b'', closing_tags = []\<rparr>]\<rparr>
          0 [] = Inr l'
        \<and> length (frases l') = 1 \<and> SrtFrase_text (frases l' ! 0) = [])"
proof -
  let ?l = "\<lparr>l_ignore_col = False,
           frases = [\<lparr>f_ignore_col = False, open_tags = [], f_text = ''a  b'', closing_tags = []\<rparr>]\<rparr>"
  have e: "SrtLine_init ''a  b '' False = Inr ?l"
    by code_simp
  have n: "0 < length (frases ?l)" by simp
  from no_empty_spans[of "''a  b ''" False 0 ?l] e n show ?thesis
    by (simp add: SrtFrase_text_def)
qed

text \<open>
  C7 as stated fails: the line \<^verbatim>\<open>a\<close> has one span, and after its text has been set to the
  empty string the line still holds the span, with an empty text.
\<close>

theorem emptied_span_stays:
  "SrtLine_init ''a'' False =
      Inr \<lparr>l_ignore_col = False,
           frases = [\<lparr>f_ignore_col = False, open_tags = [], f_text = ''a'', closing_tags = []\<rparr>]\<rparr>
   \<and> SrtLine_set_text_at
        \<lparr>l_ignore_col = False,
         frases = [\<lparr>f_ignore_col = False, open_tags = [], f_text = ''a'', closing_tags = []\<rparr>]\<rparr>
        0 [] =
      Inr \<lparr>l_ignore_col = False,
           frases = [\<lparr>f_ignore_col = False, open_tags = [], f_text = [], closing_tags = []\<rparr>]\<rparr>
   \<and> SrtFrase_text \<lparr>f_ignore_col = False, open_tags = [], f_text = [], closing_tags = []\<rparr> = []"
  by code_simp

text \<open>
  C8, as the code has it. In every tagged-run match group 1 is one opening font tag
  (\<open><\<close>, whitespace, \<^verbatim>\<open>font\<close>, characters other than \<open>>\<close>, \<open>>\<close>), and group 3 is one or more
  closing tokens followed by one \<open>>\<close>. The conditional of the pattern asks whether group 1
  took part; it does not count.
\<close>

theorem closing_tokens_of_a_match:
  "m \<in> set (finditer line) \<Longrightarrow> group1 m = Some opening \<Longrightarrow>
     (\<exists>w a. opening = ''<'' @ w @ ''font'' @ a @ ''>'' \<and> list_all isspace w \<and> CHR ''>'' \<notin> set a)
     \<and> (\<exists>toks. toks \<noteq> [] \<and> list_all is_close_token toks
           \<and> group3 m = Some (concat toks @ ''>'')
           \<and> closing_count (concat toks @ ''>'') = length toks)"
proof -
  assume m: "m \<in> set (finditer line)" and g1: "group1 m = Some opening"
  from m obtain p t r where "match_at p t = Some (m, r)"
    unfolding finditer_def using scan_match_at by blast
  then have "(m, r) \<in> set (tagged_run t)"
    using g1 by (auto dest!: match_at_cases plain_run_group1)
  from tagged_run_groups[OF this] g1 obtain w a toks where
    "opening = ''<'' @ w @ ''font'' @ a @ ''>''" "list_all isspace w" "CHR ''>'' \<notin> set a"
    "toks \<noteq> []" "list_all is_close_token toks" "group3 m = Some (concat toks @ ''>'')"
    by auto
  moreover from this have "closing_count (concat toks @ ''>'') = length toks"
    by (simp add: closing_count_tokens)
  ultimately show ?thesis by blast
qed

text \<open>The match of the line \<^verbatim>\<open><font>a</font</font>\<close>.\<close>

theorem closing_tokens_of_a_match_witness:
  "\<lparr>group1 = Some ''<font>'', group2 = Some ''a'', group3 = Some ''</font</font>'',
     group4 = None\<rparr> \<in> set (finditer ''<font>a</font</font>'')
   \<and> (\<exists>w a. ''<font>'' = ''<'' @ w @ ''font'' @ a @ ''>'' \<and> list_all isspace w
          \<and> CHR ''>'' \<notin> set a)
   \<and> (\<exists>toks. toks \<noteq> [] \<and> list_all is_close_token toks
          \<and> ''</font</font>'' = concat toks @ ''>''
          \<and> closing_count (concat toks @ ''>'') = length toks)"
proof -
  let ?m = "\<lparr>group1 = Some ''<font>'', group2 = Some ''a'', group3 = Some ''</font</font>'',
     group4 = None\<rparr>"
  have f: "finditer ''<font>a</font</font>'' = [?m]" by code_simp
  then have "?m \<in> set (finditer ''<font>a</font</font>'')" by simp
  moreover have "group1 ?m = Some ''<font>''" by simp
  ultimately show ?thesis
    using closing_tokens_of_a_match[of ?m "''<font>a</font</font>''" "''<font>''"] by simp
qed

text \<open>
  C8 as stated fails: the lines \<^verbatim>\<open><font>a</font>\<close> and \<^verbatim>\<open><font>a</font</font>\<close> open with
  the same single font tag, and the match of the first closes with one token, that of the
  second with two.
\<close>

theorem closing_count_not_opening_count:
  "finditer ''<font>a</font>'' =
     [\<lparr>group1 = Some ''<font>'', group2 = Some ''a'', group3 = Some ''</font>'',
        group4 = None\<rparr>]
   \<and> finditer ''<font>a</font</font>'' =
     [\<lparr>group1 = Some ''<font>'', group2 = Some ''a'', group3 = Some ''</font</font>'',
        group4 = None\<rparr>]
   \<and> closing_count ''</font>'' = 1
   \<and> closing_count ''</font</font>'' = 2"
  by code_simp

text \<open>
  C9. The setter of \<open>SrtDoc.text\<close> leaves the render of the document as it was: the render
  of a block reads its index, its time and its lines, never the attribute the setter
  writes.
\<close>

theorem text_setter_keeps_render:
  "snd (SrtDoc_str (SrtDoc_set_text d v)) = snd (SrtDoc_str d)
   \<and> SrtBlock_str (SrtBlock i t ls a) = SrtBlock_str (SrtBlock i t ls a')"
  by (simp add: SrtDoc_str_def SrtDoc_set_text_def split_beta block_iter_zip_assign
      SrtBlock_str_def SrtBlock_bool_def)

text \<open>
  C10. On a freshly parsed document with at least one block the getter of \<open>SrtDoc.text\<close>
  raises \<open>AttributeError\<close>: no block has the attribute \<open>text\<close> after construction. Once the
  setter has run with a document of at least as many blocks, it is no longer that error.
\<close>

theorem text_getter_raises:
  "SrtDoc_init s ic = Inr d \<Longrightarrow> blocks d \<noteq> [] \<Longrightarrow>
     SrtDoc_text d = Inl AttributeError
     \<and> (length (blocks d) \<le> length (blocks v) \<longrightarrow>
          SrtDoc_text (SrtDoc_set_text d v) \<noteq> Inl AttributeError)"
proof -
  assume d: "SrtDoc_init s ic = Inr d" and ne: "blocks d \<noteq> []"
  from SrtDoc_init_total[of s ic] d have "list_all (\<lambda>b. text_attr b = None) (blocks d)"
    by auto
  with ne have "block_texts (blocks d) = Inl AttributeError"
    by (cases "blocks d") auto
  then have 1: "SrtDoc_text d = Inl AttributeError"
    by (simp add: SrtDoc_text_def)
  have 2: "SrtDoc_text (SrtDoc_set_text d v) \<noteq> Inl AttributeError"
    if "length (blocks d) \<le> length (blocks v)"
  proof -
    from that obtain vs where "block_texts (zip_assign (blocks d) (blocks v)) = Inr vs"
      using block_texts_zip_assign by blast
    then show ?thesis by (simp add: SrtDoc_text_def SrtDoc_set_text_def)
  qed
  from 1 2 show ?thesis by blast
qed

text \<open>The document of one block \<^verbatim>\<open>1\<close>, \<^verbatim>\<open>t1\<close>, \<^verbatim>\<open>Hello\<close>.\<close>

theorem text_getter_raises_witness:
  "SrtDoc_init ''1\<newline>t1\<newline>Hello'' False =
     Inr \<lparr>blocks = [SrtBlock ''1'' ''t1''
            [\<lparr>l_ignore_col = False,
              frases = [\<lparr>f_ignore_col = False, open_tags = [], f_text = ''Hello'',
                         closing_tags = []\<rparr>]\<rparr>] None]\<rparr>
   \<and> SrtDoc_text \<lparr>blocks = [SrtBlock ''1'' ''t1''
            [\<lparr>l_ignore_col = False,
              frases = [\<lparr>f_ignore_col = False, open_tags = [], f_text = ''Hello'',
                         closing_tags = []\<rparr>]\<rparr>] None]\<rparr> = Inl AttributeError"
proof -
  let ?d = "\<lparr>blocks = [SrtBlock ''1'' ''t1''
            [\<lparr>l_ignore_col = False,
              frases = [\<lparr>f_ignore_col = False, open_tags = [], f_text = ''Hello'',
                         closing_tags = []\<rparr>]\<rparr>] None]\<rparr>"
  have e: "SrtDoc_init ''1\<newline>t1\<newline>Hello'' False = Inr ?d" by code_simp
  have ne: "blocks ?d \<noteq> []" by simp
  from text_getter_raises[OF e ne, of ?d] e show ?thesis by simp
qed

end
